theory Spec2Isabelle
  imports Main "HOL-Library.Word"
begin

section \<open>Bytes, errors and the byte buffer\<close>

type_synonym byte = "8 word"

text \<open>
  A Go \<open>error\<close> value: \<open>io.EOF\<close> or any other error. A nil error is \<open>None\<close> of
  \<open>error option\<close>.
\<close>

datatype error = EOF | Err string

text \<open>
  \<open>bytes.Buffer\<close> of the Go standard library, as its documentation describes it: the
  unread portion is a byte list, \<open>Write\<close> appends and never fails, \<open>Read\<close> copies the next
  \<open>len(p)\<close> bytes (or all that is left) into \<open>p\<close>; on an empty buffer it reports
  \<open>io.EOF\<close>, unless \<open>len(p)\<close> is zero. The first component of the result of
  \<open>Buffer_Read\<close> is \<open>p[0:n]\<close> with the error, the second the buffer that remains.
\<close>

definition Buffer_Write :: "byte list \<Rightarrow> byte list \<Rightarrow> byte list" where
  "Buffer_Write b bs = b @ bs"

definition Buffer_Read :: "byte list \<Rightarrow> nat \<Rightarrow> (byte list \<times> error option) \<times> byte list" where
  "Buffer_Read b k =
     (if b = [] then (([], if k = 0 then None else Some EOF), [])
      else ((take k b, None), drop k b))"

section \<open>The source wrapped by the reader\<close>

text \<open>
  \<open>bufReader.reader\<close> is an \<open>io.Reader\<close>, an interface. A source is given by the data
  it holds ready, segment by segment, each segment with the error (if any) the source reports
  when it hands out the end of that segment. \<open>Read(buf)\<close> with \<open>len(buf) = k\<close> returns
  at most \<open>k\<close> bytes of the first segment; a segment that does not fit stays in the source,
  shortened. A source that has nothing left reports \<open>io.EOF\<close>. Every finite sequence of
  results \<open>(n, err)\<close> with \<open>n \<le> len(buf)\<close> that an \<open>io.Reader\<close> can give is the
  behaviour of such a source (take the results themselves as the segments).
\<close>

type_synonym source = "(byte list \<times> error option) list"

fun source_Read :: "source \<Rightarrow> nat \<Rightarrow> (byte list \<times> error option) \<times> source" where
  "source_Read [] k = (([], Some EOF), [])"
| "source_Read ((bs, e) # rest) k =
     (if length bs \<le> k then ((bs, e), rest)
      else ((take k bs, None), (drop k bs, e) # rest))"

section \<open>bufReader\<close>

text \<open>
  The struct \<open>bufReader\<close>. The mutex \<open>l\<close> and the condition \<open>wait\<close> carry no data;
  waiting and signalling are modelled below by the interleaving of the two loops.
\<close>

record bufReader =
  buf :: "byte list"
  reader :: source
  err :: "error option"

definition newBufReader :: "source \<Rightarrow> bufReader" where
  "newBufReader r = \<lparr>buf = [], reader = r, err = None\<rparr>"

text \<open>
  One iteration of the loop of \<open>drain\<close>, with a chunk buffer of \<open>c\<close> bytes (1024 in the
  source): read from the source; on an error record it, otherwise append \<open>buf[0:n]\<close> to
  the shared buffer. The loop leaves (\<open>break\<close>) exactly when this iteration recorded an
  error, so the loop is still running exactly while \<open>err\<close> is \<open>None\<close>.
\<close>

definition drain_body :: "nat \<Rightarrow> bufReader \<Rightarrow> bufReader" where
  "drain_body c r =
     (case source_Read (reader r) c of
        ((bs, e), src') \<Rightarrow>
          (case e of
             Some x \<Rightarrow> r\<lparr>reader := src', err := Some x\<rparr>
           | None \<Rightarrow> r\<lparr>reader := src', buf := Buffer_Write (buf r) bs\<rparr>))"

text \<open>
  One iteration of the loop of \<open>Read\<close> with \<open>len(p) = k\<close>: either the call returns
  \<open>p[0:n]\<close> and an error value, or it reaches \<open>r.wait.Wait()\<close> and the loop goes round
  again once the drain task has signalled.
\<close>

datatype outcome = Returned "byte list" "error option" | Wait

definition Read_body :: "bufReader \<Rightarrow> nat \<Rightarrow> outcome \<times> bufReader" where
  "Read_body r k =
     (case Buffer_Read (buf r) k of
        ((bs, e), b') \<Rightarrow>
          if length bs > 0 then (Returned bs e, r\<lparr>buf := b'\<rparr>)
          else if err r \<noteq> None then (Returned [] (err r), r\<lparr>buf := b'\<rparr>)
          else (Wait, r\<lparr>buf := b'\<rparr>))"

text \<open>
  The two loops run concurrently. A run is a schedule of loop iterations, each taken as one
  atomic step: \<open>DrainIter\<close> is an iteration of \<open>drain\<close> (none is left once the loop has
  been left), \<open>ReadCall k\<close> an iteration of a \<open>Read\<close> with \<open>len(p) = k\<close>. An iteration
  of \<open>Read\<close> that waits returns nothing; the blocked call goes round its loop at a later
  \<open>ReadCall\<close> of the schedule. \<open>run\<close> gives what the calls of \<open>Read\<close> returned, in
  order, and the final state. Schedules that interleave the two tasks inside one iteration
  (the source holds the lock only around \<open>Signal\<close> and \<open>Wait\<close>) and wake-ups that are lost
  are outside this model.
\<close>

datatype event = DrainIter | ReadCall nat

fun step :: "nat \<Rightarrow> event \<Rightarrow> bufReader \<Rightarrow> (byte list \<times> error option) list \<times> bufReader" where
  "step c DrainIter r = ([], if err r = None then drain_body c r else r)"
| "step c (ReadCall k) r =
     (case Read_body r k of
        (Returned bs e, r') \<Rightarrow> ([(bs, e)], r')
      | (Wait, r') \<Rightarrow> ([], r'))"

fun run :: "nat \<Rightarrow> event list \<Rightarrow> bufReader \<Rightarrow> (byte list \<times> error option) list \<times> bufReader" where
  "run c [] r = ([], r)"
| "run c (ev # evs) r =
     (case step c ev r of
        (out, r') \<Rightarrow> (case run c evs r' of (outs, r'') \<Rightarrow> (out @ outs, r'')))"

definition delivered :: "(byte list \<times> error option) list \<Rightarrow> byte list" where
  "delivered outs = concat (map fst outs)"

text \<open>
  What a source hands out up to and including its first error, whatever the chunk size; a source
  is \<open>clean\<close> when it never returns bytes together with an error.
\<close>

fun produced :: "source \<Rightarrow> byte list" where
  "produced [] = []"
| "produced ((bs, None) # rest) = bs @ produced rest"
| "produced ((bs, Some e) # rest) = bs"

fun clean :: "source \<Rightarrow> bool" where
  "clean [] = True"
| "clean ((bs, None) # rest) = clean rest"
| "clean ((bs, Some e) # rest) = (bs = [])"

text \<open>The bytes a reader still owes its consumer: the buffer, then what a running drain
  task will still fetch from a clean source.\<close>

definition avail :: "bufReader \<Rightarrow> byte list" where
  "avail r = buf r @ (if err r = None then produced (reader r) else [])"

fun positive_reads :: "event list \<Rightarrow> bool" where
  "positive_reads [] = True"
| "positive_reads (DrainIter # evs) = positive_reads evs"
| "positive_reads (ReadCall k # evs) = (0 < k \<and> positive_reads evs)"

fun read_calls :: "event list \<Rightarrow> nat list" where
  "read_calls [] = []"
| "read_calls (DrainIter # evs) = read_calls evs"
| "read_calls (ReadCall k # evs) = k # read_calls evs"

text \<open>
  The size of a source bounds the number of iterations \<open>drain\<close> makes with a positive chunk
  size. A schedule that lets the drain task finish and then reads, \<open>k\<close> bytes at a time, until
  the buffer must be empty.
\<close>

fun size_src :: "source \<Rightarrow> nat" where
  "size_src [] = 0"
| "size_src ((bs, e) # rest) = Suc (length bs + size_src rest)"

definition fair_schedule :: "source \<Rightarrow> nat \<Rightarrow> event list" where
  "fair_schedule src k =
     replicate (Suc (size_src src)) DrainIter @ replicate (Suc (length (produced src))) (ReadCall k)"

section \<open>Sinks\<close>

text \<open>
  A sink is an \<open>io.WriteCloser\<close>, an interface value that refers to an object; the same
  object may be registered more than once. A sink is identified by its reference, and what its
  \<open>Write\<close> and \<open>Close\<close> return may depend on every call it has received so far. The world
  holds the sinks and the sequence of calls made on them. Registered sinks are live objects
  (not nil), as the type assertions of the source require.
\<close>

type_synonym ref = nat

datatype call = WriteCall "byte list" | CloseCall

record sink =
  on_Write :: "call list \<Rightarrow> byte list \<Rightarrow> int \<times> error option"
  on_Close :: "call list \<Rightarrow> error option"

record world =
  sinks :: "ref \<Rightarrow> sink"
  trace :: "(ref \<times> call) list"

definition history :: "world \<Rightarrow> ref \<Rightarrow> call list" where
  "history w s = map snd (filter (\<lambda>x. fst x = s) (trace w))"

definition sink_Write :: "ref \<Rightarrow> byte list \<Rightarrow> world \<Rightarrow> (int \<times> error option) \<times> world" where
  "sink_Write s p w =
     (on_Write (sinks w s) (history w s) p, w\<lparr>trace := trace w @ [(s, WriteCall p)]\<rparr>)"

definition sink_Close :: "ref \<Rightarrow> world \<Rightarrow> error option \<times> world" where
  "sink_Close s w =
     (on_Close (sinks w s) (history w s), w\<lparr>trace := trace w @ [(s, CloseCall)]\<rparr>)"

section \<open>container/list\<close>

text \<open>
  A \<open>list.List\<close> of the Go standard library: a sequence of elements, each a node of its own
  (\<open>*list.Element\<close>) that carries a value. \<open>PushBack\<close> allocates a new element;
  \<open>Remove\<close> takes out the element it is given, and no other, whatever the values are.
\<close>

type_synonym elem = nat

record List =
  elems :: "(elem \<times> ref) list"
  allocated :: nat

definition list_New :: List where
  "list_New = \<lparr>elems = [], allocated = 0\<rparr>"

definition PushBack :: "ref \<Rightarrow> List \<Rightarrow> List" where
  "PushBack v l = \<lparr>elems = elems l @ [(allocated l, v)], allocated = Suc (allocated l)\<rparr>"

definition Remove :: "elem \<Rightarrow> List \<Rightarrow> List" where
  "Remove e l = l\<lparr>elems := filter (\<lambda>x. fst x \<noteq> e) (elems l)\<rparr>"

text \<open>Elements are distinct nodes: the invariant of every list built by \<open>list_New\<close>,
  \<open>PushBack\<close> and \<open>Remove\<close>.\<close>

definition wf_List :: "List \<Rightarrow> bool" where
  "wf_List l = (distinct (map fst (elems l)) \<and> list_all (\<lambda>x. fst x < allocated l) (elems l))"

section \<open>writeBroadcaster\<close>

record writeBroadcaster =
  writers :: List

definition newWriteBroadcaster :: writeBroadcaster where
  "newWriteBroadcaster = \<lparr>writers = list_New\<rparr>"

definition AddWriter :: "writeBroadcaster \<Rightarrow> ref \<Rightarrow> writeBroadcaster" where
  "AddWriter b writer = b\<lparr>writers := PushBack writer (writers b)\<rparr>"

text \<open>\<open>RemoveWriter\<close>: the loop stops at the first element whose value is the writer.\<close>

fun RemoveWriter_loop :: "(elem \<times> ref) list \<Rightarrow> ref \<Rightarrow> elem option" where
  "RemoveWriter_loop [] writer = None"
| "RemoveWriter_loop ((e, v) # es) writer =
     (if v = writer then Some e else RemoveWriter_loop es writer)"

definition RemoveWriter :: "writeBroadcaster \<Rightarrow> ref \<Rightarrow> writeBroadcaster" where
  "RemoveWriter b writer =
     (case RemoveWriter_loop (elems (writers b)) writer of
        None \<Rightarrow> b
      | Some e \<Rightarrow> b\<lparr>writers := Remove e (writers b)\<rparr>)"

text \<open>
  \<open>Write\<close>, first loop: every element of the list is visited in order, its writer is given
  \<open>p\<close>, and the element is appended to \<open>failed\<close> when the writer returns an error or a
  count other than \<open>len(p)\<close>. Second loop: the failed elements are removed. The result is
  \<open>(len(p), nil)\<close>.
\<close>

fun Write_pass :: "byte list \<Rightarrow> (elem \<times> ref) list \<Rightarrow> elem list \<Rightarrow> world \<Rightarrow> elem list \<times> world" where
  "Write_pass p [] failed w = (failed, w)"
| "Write_pass p ((e, writer) # es) failed w =
     (case sink_Write writer p w of
        ((n, er), w') \<Rightarrow>
          if er \<noteq> None \<or> n \<noteq> int (length p) then Write_pass p es (failed @ [e]) w'
          else Write_pass p es failed w')"

fun Remove_failed :: "elem list \<Rightarrow> List \<Rightarrow> List" where
  "Remove_failed [] l = l"
| "Remove_failed (e # es) l = Remove_failed es (Remove e l)"

definition Write ::
  "writeBroadcaster \<Rightarrow> byte list \<Rightarrow> world \<Rightarrow> (int \<times> error option) \<times> writeBroadcaster \<times> world" where
  "Write b p w =
     (case Write_pass p (elems (writers b)) [] w of
        (failed, w') \<Rightarrow>
          ((int (length p), None), b\<lparr>writers := Remove_failed failed (writers b)\<rparr>, w'))"

text \<open>\<open>Close\<close>: every element is visited in order and its writer closed; what the
  writer's \<open>Close\<close> returns is dropped, and the result is nil.\<close>

fun Close_pass :: "(elem \<times> ref) list \<Rightarrow> world \<Rightarrow> world" where
  "Close_pass [] w = w"
| "Close_pass ((e, writer) # es) w = Close_pass es (snd (sink_Close writer w))"

definition Close :: "writeBroadcaster \<Rightarrow> world \<Rightarrow> error option \<times> writeBroadcaster \<times> world" where
  "Close b w = (None, b, Close_pass (elems (writers b)) w)"

text \<open>A caller that writes one slice after the other.\<close>

fun Writes :: "writeBroadcaster \<Rightarrow> byte list list \<Rightarrow> world \<Rightarrow> writeBroadcaster \<times> world" where
  "Writes b [] w = (b, w)"
| "Writes b (p # ps) w = (case Write b p w of (res, b', w') \<Rightarrow> Writes b' ps w')"

section \<open>Example readers, sinks and broadcasters\<close>



definition r_closed :: bufReader where
  "r_closed = \<lparr>buf = [], reader = [], err = Some (Err ''closed'')\<rparr>"

definition r_running :: bufReader where
  "r_running = \<lparr>buf = [104, 105], reader = [([33], None)], err = None\<rparr>"

definition r_last :: bufReader where
  "r_last = \<lparr>buf = [104], reader = [([105, 33], Some EOF)], err = None\<rparr>"

definition src_data_with_EOF :: source where
  "src_data_with_EOF = [([104], Some EOF)]"

text \<open>
  Sinks: one that accepts every write, one whose pipe is broken, one that, like a file,
  fails once it has been closed, and one that reports one byte more than it was given, with
  a nil error. \<open>bAB\<close> has the broken sink \<open>0\<close> registered before the healthy sink
  \<open>1\<close>; \<open>bABC\<close> has three sinks; \<open>bOver\<close> has the over-reporting sink alone.
\<close>

definition healthy :: sink where
  "healthy = \<lparr>on_Write = (\<lambda>h p. (int (length p), None)), on_Close = (\<lambda>h. None)\<rparr>"

definition broken :: sink where
  "broken = \<lparr>on_Write = (\<lambda>h p. (0, Some (Err ''broken pipe''))),
             on_Close = (\<lambda>h. Some (Err ''broken pipe''))\<rparr>"

definition file_like :: sink where
  "file_like =
     \<lparr>on_Write = (\<lambda>h p. if CloseCall \<in> set h then (0, Some (Err ''file already closed''))
                         else (int (length p), None)),
      on_Close = (\<lambda>h. if CloseCall \<in> set h then Some (Err ''file already closed'') else None)\<rparr>"

definition world0 :: world where
  "world0 = \<lparr>sinks = (\<lambda>s. if s = 0 then broken else healthy), trace = []\<rparr>"

definition world1 :: world where
  "world1 = \<lparr>sinks = (\<lambda>s. if s = 0 then broken else file_like), trace = []\<rparr>"

definition bAB :: writeBroadcaster where
  "bAB = AddWriter (AddWriter newWriteBroadcaster 0) 1"

definition bABC :: writeBroadcaster where
  "bABC = AddWriter (AddWriter (AddWriter newWriteBroadcaster 0) 1) 2"

definition overcounting :: sink where
  "overcounting = \<lparr>on_Write = (\<lambda>h p. (int (length p) + 1, None)), on_Close = (\<lambda>h. None)\<rparr>"

definition world2 :: world where
  "world2 = \<lparr>sinks = (\<lambda>s. overcounting), trace = []\<rparr>"

definition bOver :: writeBroadcaster where
  "bOver = AddWriter newWriteBroadcaster 0"

section \<open>Properties of the reader\<close>

lemma Read_body_data:
  "buf r \<noteq> [] \<Longrightarrow> 0 < k \<Longrightarrow>
   Read_body r k = (Returned (take k (buf r)) None, r\<lparr>buf := drop k (buf r)\<rparr>)"
  by (simp add: Read_body_def Buffer_Read_def)

lemma Read_body_empty:
  "buf r = [] \<Longrightarrow> Read_body r k = (if err r = None then Wait else Returned [] (err r), r)"
  by (simp add: Read_body_def Buffer_Read_def)

lemma Read_body_zero:
  "Read_body r 0 = (if err r = None then Wait else Returned [] (err r), r)"
  by (simp add: Read_body_def Buffer_Read_def)

lemma run_append:
  "run c (xs @ ys) r =
     (case run c xs r of (o1, r1) \<Rightarrow> (case run c ys r1 of (o2, r2) \<Rightarrow> (o1 @ o2, r2)))"
  by (induction xs arbitrary: r) (auto split: prod.splits)

lemma delivered_append: "delivered (xs @ ys) = delivered xs @ delivered ys"
  by (simp add: delivered_def)

lemma step_terminal:
  assumes "err r = Some e" and "step c ev r = (out, r')"
  shows "err r' = Some e \<and> reader r' = reader r \<and> delivered out @ buf r' = buf r"
  using assms
  by (cases ev) (auto simp: Read_body_def Buffer_Read_def delivered_def split: if_splits)

lemma run_terminal:
  "err r = Some e \<Longrightarrow> run c evs r = (outs, r') \<Longrightarrow>
   err r' = Some e \<and> reader r' = reader r \<and> delivered outs @ buf r' = buf r"
proof (induction evs arbitrary: r outs r')
  case Nil
  then show ?case by (simp add: delivered_def)
next
  case (Cons ev evs)
  obtain out r1 where s: "step c ev r = (out, r1)" by (cases "step c ev r")
  obtain outs1 r2 where t: "run c evs r1 = (outs1, r2)" by (cases "run c evs r1")
  from Cons.prems s t have o: "outs = out @ outs1" and r2: "r' = r2" by auto
  from step_terminal[OF Cons.prems(1) s] have a: "err r1 = Some e" "reader r1 = reader r"
    "delivered out @ buf r1 = buf r" by auto
  from Cons.IH[OF a(1) t] have b: "err r2 = Some e" "reader r2 = reader r1"
    "delivered outs1 @ buf r2 = buf r1" by auto
  show ?case using a b o r2 by (simp add: delivered_append)
qed

lemma source_Read_clean:
  assumes "clean s" and "source_Read s c = ((bs, e), s')"
  shows "(e = None \<longrightarrow> clean s' \<and> bs @ produced s' = produced s)
       \<and> (e \<noteq> None \<longrightarrow> bs = [] \<and> produced s = [])"
proof (cases s)
  case Nil
  with assms show ?thesis by auto
next
  case (Cons x rest)
  obtain b0 e0 where x: "x = (b0, e0)" by (cases x)
  show ?thesis
  proof (cases e0)
    case None
    with assms Cons x show ?thesis by (auto split: if_splits)
  next
    case (Some a)
    with assms Cons x show ?thesis by (auto split: if_splits)
  qed
qed

lemma drain_body_clean:
  assumes "clean (reader r)" and "err r = None"
  shows "avail (drain_body c r) = avail r
       \<and> (err (drain_body c r) = None \<longrightarrow> clean (reader (drain_body c r)))"
proof -
  obtain bs e s' where sr: "source_Read (reader r) c = ((bs, e), s')"
    by (metis surj_pair)
  from source_Read_clean[OF assms(1) sr] assms(2) sr show ?thesis
    by (cases e) (auto simp: drain_body_def avail_def Buffer_Write_def)
qed

lemma Read_body_avail:
  assumes "Read_body r k = (res, r')"
  shows "err r' = err r \<and> reader r' = reader r
       \<and> (case res of Returned bs e \<Rightarrow> bs @ buf r' = buf r | Wait \<Rightarrow> buf r' = buf r)"
  using assms by (auto simp: Read_body_def Buffer_Read_def split: if_splits)

lemma step_clean:
  assumes "clean (reader r)" and "err r = None" and "step c ev r = (out, r')"
  shows "delivered out @ avail r' = avail r \<and> (err r' = None \<longrightarrow> clean (reader r'))"
proof (cases ev)
  case DrainIter
  with assms drain_body_clean[OF assms(1,2), of c] show ?thesis
    by (auto simp: delivered_def)
next
  case (ReadCall k)
  obtain res r1 where rb: "Read_body r k = (res, r1)" by (cases "Read_body r k")
  from Read_body_avail[OF rb] assms ReadCall rb show ?thesis
    by (cases res) (auto simp: avail_def delivered_def)
qed

lemma run_clean:
  "clean (reader r) \<Longrightarrow> err r = None \<Longrightarrow> run c evs r = (outs, r') \<Longrightarrow>
   delivered outs @ avail r' = avail r"
proof (induction evs arbitrary: r outs r')
  case Nil
  then show ?case by (simp add: delivered_def)
next
  case (Cons ev evs)
  obtain out r1 where s: "step c ev r = (out, r1)" by (cases "step c ev r")
  obtain outs1 where t: "run c evs r1 = (outs1, r')" using Cons.prems(3) s
    by (auto split: prod.splits)
  from Cons.prems s t have o: "outs = out @ outs1" by auto
  from step_clean[OF Cons.prems(1,2) s]
  have a: "delivered out @ avail r1 = avail r" "err r1 = None \<longrightarrow> clean (reader r1)" by auto
  show ?case
  proof (cases "err r1")
    case None
    with a Cons.IH[OF _ None t] o show ?thesis by (simp add: delivered_append)
  next
    case (Some e)
    from run_terminal[OF Some t] have "delivered outs1 @ buf r' = buf r1" "err r' = Some e" by auto
    then have "delivered outs1 @ avail r' = avail r1" using Some by (simp add: avail_def)
    with a o show ?thesis by (simp add: delivered_append)
  qed
qed

lemma Read_body_terminal_empty:
  "err r = Some e \<Longrightarrow> buf r = [] \<Longrightarrow> Read_body r k = (Returned [] (Some e), r)"
  by (simp add: Read_body_empty)

lemma run_terminal_empty:
  "err r = Some e \<Longrightarrow> buf r = [] \<Longrightarrow>
   run c evs r = (map (\<lambda>k. ([], Some e)) (read_calls evs), r)"
proof (induction evs)
  case Nil
  then show ?case by simp
next
  case (Cons ev evs)
  then show ?case by (cases ev) (simp_all add: Read_body_empty)
qed

lemma error_seen:
  "positive_reads evs \<Longrightarrow> run c evs r = (outs, r') \<Longrightarrow> (bs, Some e) \<in> set outs \<Longrightarrow>
   bs = [] \<and> buf r' = [] \<and> err r' = Some e"
proof (induction evs arbitrary: r outs)
  case Nil
  then show ?case by simp
next
  case (Cons ev evs)
  obtain out r1 where s: "step c ev r = (out, r1)" by (cases "step c ev r")
  obtain outs1 where t: "run c evs r1 = (outs1, r')" using Cons.prems(2) s
    by (auto split: prod.splits)
  from Cons.prems(2) s t have o: "outs = out @ outs1" by auto
  from Cons.prems(1) have pr: "positive_reads evs" by (cases ev) auto
  show ?case
  proof (cases "(bs, Some e) \<in> set outs1")
    case True
    from Cons.IH[OF pr t True] show ?thesis .
  next
    case False
    with Cons.prems(3) o have inout: "(bs, Some e) \<in> set out" by auto
    then obtain k where ev: "ev = ReadCall k" using s by (cases ev) auto
    with Cons.prems(1) have k: "0 < k" by simp
    from inout s ev k have st: "bs = []" "buf r = []" "err r = Some e" "r1 = r"
      by (auto simp: Read_body_def Buffer_Read_def split: if_splits)
    from run_terminal_empty[OF st(3,2), of c evs] t st(4) have "r' = r" by simp
    with st show ?thesis by simp
  qed
qed

lemma fifo_clean_source:
  assumes "clean src" and "run c evs (newBufReader src) = (outs, r')"
  shows "delivered outs @ avail r' = produced src"
    and "positive_reads evs \<Longrightarrow> (bs, Some e) \<in> set outs \<Longrightarrow> delivered outs = produced src"
proof -
  have init: "clean (reader (newBufReader src))" "err (newBufReader src) = None"
    "avail (newBufReader src) = produced src"
    using assms(1) by (simp_all add: newBufReader_def avail_def)
  from run_clean[OF init(1,2) assms(2)] init(3)
  show a: "delivered outs @ avail r' = produced src" by simp
  assume "positive_reads evs" "(bs, Some e) \<in> set outs"
  from error_seen[OF this(1) assms(2) this(2)] have "avail r' = []" by (simp add: avail_def)
  with a show "delivered outs = produced src" by simp
qed

lemma positive_reads_replicate_Drain: "positive_reads (replicate n DrainIter)"
  by (induction n) auto

lemma positive_reads_replicate_Read: "0 < k \<Longrightarrow> positive_reads (replicate n (ReadCall k))"
  by (induction n) auto

lemma positive_reads_append:
  "positive_reads (xs @ ys) = (positive_reads xs \<and> positive_reads ys)"
  by (induction xs rule: positive_reads.induct) auto

lemma run_outputs_Drain: "fst (run c (replicate n DrainIter) r) = []"
  by (induction n arbitrary: r) (auto split: prod.splits)

lemma source_Read_size:
  assumes "0 < c" and "source_Read s c = ((bs, None), s')"
  shows "size_src s' < size_src s"
proof (cases s)
  case Nil
  with assms show ?thesis by simp
next
  case (Cons x rest)
  obtain b0 e0 where "x = (b0, e0)" by (cases x)
  with assms Cons show ?thesis by (auto split: if_splits)
qed

lemma drains_terminate:
  "0 < c \<Longrightarrow> size_src (reader r) < n \<Longrightarrow> err (snd (run c (replicate n DrainIter) r)) \<noteq> None"
proof (induction n arbitrary: r)
  case 0
  then show ?case by simp
next
  case (Suc n)
  show ?case
  proof (cases "err r")
    case (Some e)
    from run_terminal[OF Some, of c "replicate (Suc n) DrainIter"
        "fst (run c (replicate (Suc n) DrainIter) r)" "snd (run c (replicate (Suc n) DrainIter) r)"]
    show ?thesis by simp
  next
    case None
    obtain bs e s' where sr: "source_Read (reader r) c = ((bs, e), s')" by (metis surj_pair)
    have st: "step c DrainIter r = ([], drain_body c r)" using None by simp
    show ?thesis
    proof (cases e)
      case (Some x)
      with sr have "err (drain_body c r) = Some x" by (simp add: drain_body_def)
      from run_terminal[OF this, of c "replicate n DrainIter"
          "fst (run c (replicate n DrainIter) (drain_body c r))"
          "snd (run c (replicate n DrainIter) (drain_body c r))"] st
      show ?thesis by (simp add: split_beta)
    next
      case e: None
      from source_Read_size[OF Suc.prems(1)] sr e have "size_src s' < size_src (reader r)" by simp
      moreover have "reader (drain_body c r) = s'" using sr e by (simp add: drain_body_def)
      ultimately have "size_src (reader (drain_body c r)) < n" using Suc.prems(2) by simp
      from Suc.IH[OF Suc.prems(1) this] st show ?thesis by (simp add: split_beta)
    qed
  qed
qed

lemma reads_reach_error:
  "err r = Some e \<Longrightarrow> 0 < k \<Longrightarrow> length (buf r) < n \<Longrightarrow>
   ([], Some e) \<in> set (fst (run c (replicate n (ReadCall k)) r))"
proof (induction n arbitrary: r)
  case 0
  then show ?case by simp
next
  case (Suc n)
  show ?case
  proof (cases "buf r = []")
    case True
    from Read_body_terminal_empty[OF Suc.prems(1) True] show ?thesis
      by (simp add: split_beta)
  next
    case False
    let ?r1 = "r\<lparr>buf := drop k (buf r)\<rparr>"
    from Read_body_data[OF False Suc.prems(2)]
    have st: "step c (ReadCall k) r = ([(take k (buf r), None)], ?r1)" by simp
    have "length (buf ?r1) < n" using False Suc.prems(2,3) by (cases "buf r") auto
    from Suc.IH[OF _ Suc.prems(2) this] Suc.prems(1) st show ?thesis
      by (simp add: split_beta)
  qed
qed

lemma fair_schedule_delivers_all:
  assumes "clean src" and "0 < c" and "0 < k"
  shows "positive_reads (fair_schedule src k)
       \<and> delivered (fst (run c (fair_schedule src k) (newBufReader src))) = produced src
       \<and> (\<exists>e. ([], Some e) \<in> set (fst (run c (fair_schedule src k) (newBufReader src))))"
proof -
  let ?r0 = "newBufReader src"
  let ?ds = "replicate (Suc (size_src src)) DrainIter"
  let ?rs = "replicate (Suc (length (produced src))) (ReadCall k)"
  let ?r1 = "snd (run c ?ds ?r0)"
  have pos: "positive_reads (fair_schedule src k)"
    using assms(3)
    by (simp add: fair_schedule_def positive_reads_append positive_reads_replicate_Drain
        positive_reads_replicate_Read del: replicate.simps)
  have "err ?r1 \<noteq> None"
    by (rule drains_terminate[OF assms(2)]) (simp add: newBufReader_def)
  then obtain e where e: "err ?r1 = Some e" by auto
  have d: "run c ?ds ?r0 = ([], ?r1)"
    using run_outputs_Drain[of c "Suc (size_src src)" ?r0] by (metis prod.collapse)
  from fifo_clean_source(1)[OF assms(1) d] e have "buf ?r1 = produced src"
    by (simp add: avail_def delivered_def)
  then have "length (buf ?r1) < Suc (length (produced src))" by simp
  from reads_reach_error[OF e assms(3) this, of c]
  have seen: "([], Some e) \<in> set (fst (run c ?rs ?r1))" .
  have whole: "fst (run c (fair_schedule src k) ?r0) = fst (run c ?rs ?r1)"
    by (simp add: fair_schedule_def run_append split_beta run_outputs_Drain del: replicate.simps)
  have r: "run c (fair_schedule src k) ?r0
      = (fst (run c (fair_schedule src k) ?r0), snd (run c (fair_schedule src k) ?r0))" by simp
  from seen whole have "([], Some e) \<in> set (fst (run c (fair_schedule src k) ?r0))" by simp
  with fifo_clean_source(2)[OF assms(1) r pos this] pos show ?thesis by blast
qed

text \<open>For every source and every schedule, what has been delivered is a prefix of what the
  source produced: bytes are neither reordered, nor repeated, nor made up.\<close>

lemma source_Read_produced:
  assumes "source_Read s c = ((bs, e), s')"
  shows "e = None \<longrightarrow> bs @ produced s' = produced s"
proof (cases s)
  case Nil
  with assms show ?thesis by auto
next
  case (Cons x rest)
  obtain b0 e0 where x: "x = (b0, e0)" by (cases x)
  show ?thesis
  proof (cases e0)
    case None
    with assms Cons x show ?thesis by (auto split: if_splits)
  next
    case (Some a)
    with assms Cons x show ?thesis by (auto split: if_splits)
  qed
qed

lemma step_prefix:
  assumes "err r = None" and "step c ev r = (out, r')"
  shows "\<exists>rest. delivered out @ buf r' @ rest = buf r @ produced (reader r)
           \<and> (err r' = None \<longrightarrow> rest = produced (reader r'))"
proof (cases ev)
  case DrainIter
  obtain bs e s' where sr: "source_Read (reader r) c = ((bs, e), s')" by (metis surj_pair)
  from source_Read_produced[OF sr] assms DrainIter sr show ?thesis
    by (cases e) (auto simp: drain_body_def Buffer_Write_def delivered_def)
next
  case (ReadCall k)
  obtain res r1 where rb: "Read_body r k = (res, r1)" by (cases "Read_body r k")
  from Read_body_avail[OF rb] assms ReadCall rb show ?thesis
    by (cases res) (auto simp: delivered_def)
qed

lemma run_prefix:
  "err r = None \<Longrightarrow> run c evs r = (outs, r') \<Longrightarrow>
   \<exists>rest. delivered outs @ buf r' @ rest = buf r @ produced (reader r)"
proof (induction evs arbitrary: r outs r')
  case Nil
  then show ?case by (simp add: delivered_def)
next
  case (Cons ev evs)
  obtain out r1 where s: "step c ev r = (out, r1)" by (cases "step c ev r")
  obtain outs1 where t: "run c evs r1 = (outs1, r')" using Cons.prems(2) s
    by (auto split: prod.splits)
  from Cons.prems s t have o: "outs = out @ outs1" by auto
  from step_prefix[OF Cons.prems(1) s] obtain rest where
    a: "delivered out @ buf r1 @ rest = buf r @ produced (reader r)"
    "err r1 = None \<longrightarrow> rest = produced (reader r1)" by auto
  show ?case
  proof (cases "err r1")
    case None
    from Cons.IH[OF None t] obtain rest1 where
      "delivered outs1 @ buf r' @ rest1 = buf r1 @ produced (reader r1)" by auto
    with a None o have "delivered outs @ buf r' @ rest1 = buf r @ produced (reader r)"
      by (simp add: delivered_append)
    then show ?thesis by blast
  next
    case (Some e)
    from run_terminal[OF Some t] have "delivered outs1 @ buf r' = buf r1" by auto
    with a o have "delivered outs @ buf r' @ rest = buf r @ produced (reader r)"
      by (simp add: delivered_append) (metis append_assoc)
    then show ?thesis by blast
  qed
qed

lemma delivered_is_prefix_of_produced:
  "\<exists>rest. delivered (fst (run c evs (newBufReader src))) @ rest = produced src"
proof -
  obtain outs r' where r: "run c evs (newBufReader src) = (outs, r')" by (metis surj_pair)
  from run_prefix[OF _ r] obtain rest where "delivered outs @ buf r' @ rest = produced src"
    by (auto simp: newBufReader_def)
  with r show ?thesis by auto
qed

section \<open>Properties of the broadcaster\<close>

lemma wf_List_New: "wf_List list_New"
  by (simp add: wf_List_def list_New_def)

lemma wf_List_PushBack: "wf_List l \<Longrightarrow> wf_List (PushBack v l)"
  by (fastforce simp: wf_List_def PushBack_def list_all_iff)

lemma wf_List_Remove: "wf_List l \<Longrightarrow> wf_List (Remove e l)"
  by (auto simp: wf_List_def Remove_def distinct_map_filter list_all_iff)

lemma wf_newWriteBroadcaster: "wf_List (writers newWriteBroadcaster)"
  by (simp add: newWriteBroadcaster_def wf_List_New)

lemma wf_AddWriter: "wf_List (writers b) \<Longrightarrow> wf_List (writers (AddWriter b s))"
  by (simp add: AddWriter_def wf_List_PushBack)

lemma wf_RemoveWriter: "wf_List (writers b) \<Longrightarrow> wf_List (writers (RemoveWriter b s))"
  by (simp add: RemoveWriter_def wf_List_Remove split: option.splits)

lemma sink_Write_world:
  "sink_Write s p w = (res, w') \<Longrightarrow> trace w' = trace w @ [(s, WriteCall p)] \<and> sinks w' = sinks w"
  by (auto simp: sink_Write_def)

lemma sink_Close_world:
  "sink_Close s w = (res, w') \<Longrightarrow> trace w' = trace w @ [(s, CloseCall)] \<and> sinks w' = sinks w"
  by (auto simp: sink_Close_def)

lemma Write_pass_world:
  "Write_pass p es f w = (f', w') \<Longrightarrow>
   trace w' = trace w @ map (\<lambda>x. (snd x, WriteCall p)) es \<and> sinks w' = sinks w"
proof (induction es arbitrary: f w)
  case Nil
  then show ?case by simp
next
  case (Cons x es)
  obtain e s where x: "x = (e, s)" by (cases x)
  obtain n er w1 where sw: "sink_Write s p w = ((n, er), w1)"
    by (metis surj_pair)
  from Cons.prems x sw obtain f1 where "Write_pass p es f1 w1 = (f', w')"
    by (auto split: if_splits)
  from Cons.IH[OF this] sink_Write_world[OF sw] x show ?case by simp
qed

lemma Write_pass_append:
  "Write_pass p (xs @ ys) f w =
     (case Write_pass p xs f w of (f1, w1) \<Rightarrow> Write_pass p ys f1 w1)"
  by (induction xs arbitrary: f w) (auto split: prod.splits)

lemma Write_pass_failed:
  "Write_pass p es f w = (f', w') \<Longrightarrow> set f \<subseteq> set f' \<and> set f' \<subseteq> set f \<union> fst ` set es"
proof (induction es arbitrary: f w)
  case Nil
  then show ?case by simp
next
  case (Cons x es)
  obtain e s where x: "x = (e, s)" by (cases x)
  obtain n er w1 where sw: "sink_Write s p w = ((n, er), w1)"
    by (metis surj_pair)
  show ?case
  proof (cases "er \<noteq> None \<or> n \<noteq> int (length p)")
    case True
    with Cons.prems x sw have "Write_pass p es (f @ [e]) w1 = (f', w')" by simp
    from Cons.IH[OF this] x show ?thesis by auto
  next
    case False
    with Cons.prems x sw have "Write_pass p es f w1 = (f', w')" by simp
    from Cons.IH[OF this] x show ?thesis by auto
  qed
qed

lemma Remove_failed_elems:
  "elems (Remove_failed f l) = filter (\<lambda>x. fst x \<notin> set f) (elems l)
   \<and> allocated (Remove_failed f l) = allocated l"
  by (induction f arbitrary: l) (auto simp: Remove_def intro: filter_cong)

lemma Write_result:
  assumes "Write b p w = (res, b', w')"
  shows "res = (int (length p), None)"
    and "elems (writers b') =
           filter (\<lambda>x. fst x \<notin> set (fst (Write_pass p (elems (writers b)) [] w))) (elems (writers b))"
    and "allocated (writers b') = allocated (writers b)"
    and "trace w' = trace w @ map (\<lambda>x. (snd x, WriteCall p)) (elems (writers b))"
    and "sinks w' = sinks w"
proof -
  obtain f w1 where wp: "Write_pass p (elems (writers b)) [] w = (f, w1)"
    by (cases "Write_pass p (elems (writers b)) [] w")
  with assms have r: "res = (int (length p), None)"
    "b' = b\<lparr>writers := Remove_failed f (writers b)\<rparr>" "w' = w1"
    by (auto simp: Write_def)
  show "res = (int (length p), None)" by (rule r(1))
  show "elems (writers b') =
           filter (\<lambda>x. fst x \<notin> set (fst (Write_pass p (elems (writers b)) [] w))) (elems (writers b))"
    using r(2) wp by (simp add: Remove_failed_elems)
  show "allocated (writers b') = allocated (writers b)"
    using r(2) by (simp add: Remove_failed_elems)
  show "trace w' = trace w @ map (\<lambda>x. (snd x, WriteCall p)) (elems (writers b))"
    using Write_pass_world[OF wp] r(3) by simp
  show "sinks w' = sinks w" using Write_pass_world[OF wp] r(3) by simp
qed

lemma entry_failed_iff:
  assumes d: "distinct (map fst es)"
    and i: "i < length es" and ei: "es ! i = (e, s)"
    and pre: "Write_pass p (take i es) [] w = (f0, w0)"
    and sw: "sink_Write s p w0 = ((n, er), w1)"
  shows "e \<in> set (fst (Write_pass p es [] w)) \<longleftrightarrow> (er \<noteq> None \<or> n \<noteq> int (length p))"
proof -
  have split: "es = take i es @ (e, s) # drop (Suc i) es"
    using i ei by (metis id_take_nth_drop)
  from d have d': "distinct (map fst (take i es @ (e, s) # drop (Suc i) es))"
    using split by simp
  then have notin: "e \<notin> fst ` set (take i es)" "e \<notin> fst ` set (drop (Suc i) es)"
    by auto
  from Write_pass_failed[OF pre] have f0: "set f0 \<subseteq> fst ` set (take i es)" by simp
  define f1 where "f1 = (if er \<noteq> None \<or> n \<noteq> int (length p) then f0 @ [e] else f0)"
  obtain f2 w2 where rest: "Write_pass p (drop (Suc i) es) f1 w1 = (f2, w2)"
    by (cases "Write_pass p (drop (Suc i) es) f1 w1")
  have "Write_pass p (take i es @ (e, s) # drop (Suc i) es) [] w = (f2, w2)"
    using pre sw rest by (cases "er \<noteq> None \<or> n \<noteq> int (length p)") (auto simp: Write_pass_append f1_def)
  then have whole: "Write_pass p es [] w = (f2, w2)" using split by simp
  from Write_pass_failed[OF rest] have f2: "set f1 \<subseteq> set f2"
    "set f2 \<subseteq> set f1 \<union> fst ` set (drop (Suc i) es)" by auto
  have "e \<in> set f2 \<longleftrightarrow> e \<in> set f1" using f2 notin(2) by auto
  also have "\<dots> \<longleftrightarrow> (er \<noteq> None \<or> n \<noteq> int (length p))"
    using f0 notin(1) by (auto simp: f1_def)
  finally show ?thesis using whole by simp
qed

lemma entry_kept_iff:
  assumes wf: "wf_List (writers b)"
    and i: "i < length (elems (writers b))" and ei: "elems (writers b) ! i = (e, s)"
    and pre: "Write_pass p (take i (elems (writers b))) [] w = (f0, w0)"
    and sw: "sink_Write s p w0 = ((n, er), w1)"
    and W: "Write b p w = (res, b', w')"
  shows "(e, s) \<in> set (elems (writers b')) \<longleftrightarrow> (er = None \<and> n = int (length p))"
proof -
  from wf have d: "distinct (map fst (elems (writers b)))" by (simp add: wf_List_def)
  have mem: "(e, s) \<in> set (elems (writers b))" using i ei by (metis nth_mem)
  from entry_failed_iff[OF d i ei pre sw] Write_result(2)[OF W] mem show ?thesis by auto
qed

lemma wf_List_Write:
  assumes "wf_List (writers b)" and "Write b p w = (res, b', w')"
  shows "wf_List (writers b')"
  using assms(1) Write_result(2,3)[OF assms(2)]
  by (auto simp: wf_List_def distinct_map_filter list_all_iff)

lemma Writes_later:
  "Writes b ps w = (b2, w2) \<Longrightarrow>
   set (elems (writers b2)) \<subseteq> set (elems (writers b))
   \<and> (\<exists>calls. trace w2 = trace w @ calls \<and> fst ` set calls \<subseteq> snd ` set (elems (writers b)))"
proof (induction ps arbitrary: b w)
  case Nil
  then show ?case by simp
next
  case (Cons p ps)
  obtain res b1 w1 where W: "Write b p w = (res, b1, w1)" by (metis surj_pair)
  with Cons.prems have R: "Writes b1 ps w1 = (b2, w2)" by simp
  from Write_result(2)[OF W] have sub: "set (elems (writers b1)) \<subseteq> set (elems (writers b))"
    by auto
  from Cons.IH[OF R] obtain calls where c: "set (elems (writers b2)) \<subseteq> set (elems (writers b1))"
    "trace w2 = trace w1 @ calls" "fst ` set calls \<subseteq> snd ` set (elems (writers b1))" by auto
  let ?c1 = "map (\<lambda>x. (snd x, WriteCall p)) (elems (writers b))"
  have "trace w2 = trace w @ (?c1 @ calls)" using c(2) Write_result(4)[OF W] by simp
  moreover have "fst ` set (?c1 @ calls) \<subseteq> snd ` set (elems (writers b))"
    using c(3) sub by force
  ultimately show ?case using c(1) sub by blast
qed

lemma Close_pass_world:
  "trace (Close_pass es w) = trace w @ map (\<lambda>x. (snd x, CloseCall)) es
   \<and> sinks (Close_pass es w) = sinks w"
  by (induction es arbitrary: w) (auto simp: sink_Close_def)

section \<open>The claims about bufReader\<close>

text \<open>
  C1. The bytes that successive calls of \<open>Read\<close> return are the concatenation, in order, of
  the bytes the source produced, for every chunk size and every split of the reads. The code
  does not do this for a source that returns its last bytes together with the error, as an
  \<open>io.Reader\<close> may: the source below produces the byte \<open>h\<close> with \<open>io.EOF\<close>; the drain
  task records the error and drops the byte, the consumer's read returns \<open>(0, io.EOF)\<close>, and
  under no schedule is any byte delivered. (What is delivered is always a prefix of what
  the source produced, \<open>delivered_is_prefix_of_produced\<close>; for clean sources it is all of
  it, \<open>fifo_clean_source\<close> and \<open>fair_schedule_delivers_all\<close>.)
\<close>

theorem final_bytes_with_error_lost:
  "source_Read src_data_with_EOF 1024 = (([104], Some EOF), [])
   \<and> produced src_data_with_EOF = [104]
   \<and> run 1024 [DrainIter, ReadCall 1] (newBufReader src_data_with_EOF)
       = ([([], Some EOF)], \<lparr>buf = [], reader = [], err = Some EOF\<rparr>)
   \<and> delivered (fst (run 1024 evs (newBufReader src_data_with_EOF))) = []"
proof -
  let ?r0 = "newBufReader src_data_with_EOF"
  let ?r1 = "\<lparr>buf = [], reader = [], err = Some EOF\<rparr> :: bufReader"
  have a: "source_Read src_data_with_EOF 1024 = (([104], Some EOF), [])"
    "produced src_data_with_EOF = [104]" by (simp_all add: src_data_with_EOF_def newBufReader_def Read_body_def Buffer_Read_def Buffer_Write_def drain_body_def delivered_def)
  have b: "run 1024 [DrainIter, ReadCall 1] ?r0 = ([([], Some EOF)], ?r1)"
    by (simp add: src_data_with_EOF_def newBufReader_def Read_body_def Buffer_Read_def Buffer_Write_def drain_body_def delivered_def)
  have t: "delivered (fst (run 1024 es ?r1)) = []" for es
    using run_terminal[of ?r1 EOF 1024 es "fst (run 1024 es ?r1)" "snd (run 1024 es ?r1)"]
    by simp
  have c: "delivered (fst (run 1024 es ?r0)) = []" for es
  proof (induction es)
    case Nil
    then show ?case by (simp add: delivered_def)
  next
    case (Cons ev es)
    show ?case
    proof (cases ev)
      case DrainIter
      have "step 1024 DrainIter ?r0 = ([], ?r1)" by (simp add: src_data_with_EOF_def newBufReader_def Read_body_def Buffer_Read_def Buffer_Write_def drain_body_def delivered_def)
      with DrainIter t[of es] show ?thesis by (simp add: split_beta)
    next
      case (ReadCall k)
      have "step 1024 (ReadCall k) ?r0 = ([], ?r0)" by (simp add: src_data_with_EOF_def newBufReader_def Read_body_def Buffer_Read_def Buffer_Write_def drain_body_def delivered_def)
      with ReadCall Cons.IH show ?thesis by (simp add: split_beta)
    qed
  qed
  from a b c show ?thesis by simp
qed




text \<open>
  C6. Once the drain task has recorded its error \<open>e\<close>: if the buffer is empty, \<open>Read\<close>
  returns \<open>(0, e)\<close> at its first iteration, whatever \<open>len(p)\<close> is, and leaves the state as
  it is, so under every schedule every call returns \<open>(0, e)\<close>; and under every schedule the
  recorded error stays \<open>e\<close> and the source is not read again (the one terminal transition
  has happened).
\<close>

theorem terminal_error_idempotent:
  assumes "err r = Some e"
  shows "(buf r = [] \<longrightarrow>
            Read_body r k = (Returned [] (Some e), r)
            \<and> run c evs r = (map (\<lambda>k. ([], Some e)) (read_calls evs), r))
       \<and> err (snd (run c evs r)) = Some e
       \<and> reader (snd (run c evs r)) = reader r"
proof -
  from run_terminal[OF assms, of c evs "fst (run c evs r)" "snd (run c evs r)"]
  have "err (snd (run c evs r)) = Some e" "reader (snd (run c evs r)) = reader r" by simp_all
  then show ?thesis
    using Read_body_terminal_empty[OF assms] run_terminal_empty[OF assms] by simp
qed

theorem terminal_error_idempotent_witness:
  "err r_closed = Some (Err ''closed'') \<and> buf r_closed = []
   \<and> Read_body r_closed 8 = (Returned [] (Some (Err ''closed'')), r_closed)
   \<and> run 1024 [ReadCall 8, DrainIter, ReadCall 0, ReadCall 8] r_closed
       = ([([], Some (Err ''closed'')), ([], Some (Err ''closed'')), ([], Some (Err ''closed''))],
          r_closed)"
proof -
  have e: "err r_closed = Some (Err ''closed'')" by (simp add: r_closed_def)
  have b: "buf r_closed = []" by (simp add: r_closed_def)
  have m: "map (\<lambda>k. ([], Some (Err ''closed''))) (read_calls [ReadCall 8, DrainIter, ReadCall 0, ReadCall 8])
      = ([([], Some (Err ''closed'')), ([], Some (Err ''closed'')), ([], Some (Err ''closed''))]
          :: (byte list \<times> error option) list)"
    by simp
  from terminal_error_idempotent [OF e, of 8 1024 "[ReadCall 8, DrainIter, ReadCall 0, ReadCall 8]"] b
  have "Read_body r_closed 8 = (Returned [] (Some (Err ''closed'')), r_closed)"
    "run 1024 [ReadCall 8, DrainIter, ReadCall 0, ReadCall 8] r_closed
       = (map (\<lambda>k. ([], Some (Err ''closed''))) (read_calls [ReadCall 8, DrainIter, ReadCall 0, ReadCall 8]), r_closed)"
    by blast+
  with e b m show ?thesis by (simp only: simp_thms)
qed

text \<open>
  C8. When the drain task is running and the read of the source returns bytes \<open>bs\<close> together
  with an error \<open>e\<close>, the iteration of \<open>drain\<close> records \<open>e\<close> and leaves the buffer as
  it was; under every later schedule the bytes delivered and the bytes left in the buffer are
  together exactly the old buffer, so \<open>bs\<close> is never delivered.
\<close>

theorem drain_discards_bytes_read_with_error:
  assumes "err r = None" and "source_Read (reader r) c = ((bs, Some e), s')"
  shows "step c DrainIter r = ([], drain_body c r)
       \<and> err (drain_body c r) = Some e
       \<and> buf (drain_body c r) = buf r
       \<and> delivered (fst (run c evs (drain_body c r))) @ buf (snd (run c evs (drain_body c r)))
           = buf r"
proof -
  have d: "err (drain_body c r) = Some e" "buf (drain_body c r) = buf r"
    using assms(2) by (simp_all add: drain_body_def)
  from run_terminal[OF d(1), of c evs "fst (run c evs (drain_body c r))"
      "snd (run c evs (drain_body c r))"] d assms(1)
  show ?thesis by simp
qed

theorem drain_discards_bytes_read_with_error_witness:
  "err r_last = None
   \<and> source_Read (reader r_last) 1024 = (([105, 33], Some EOF), [])
   \<and> drain_body 1024 r_last = \<lparr>buf = [104], reader = [], err = Some EOF\<rparr>
   \<and> run 1024 [ReadCall 8, ReadCall 8] (drain_body 1024 r_last)
       = ([([104], None), ([], Some EOF)], \<lparr>buf = [], reader = [], err = Some EOF\<rparr>)"
proof -
  have h: "err r_last = None" "source_Read (reader r_last) 1024 = (([105, 33], Some EOF), [])"
    by (simp_all add: r_last_def)
  from drain_discards_bytes_read_with_error [OF h, of "[ReadCall 8, ReadCall 8]"] h
  show ?thesis by (simp add: r_last_def newBufReader_def Read_body_def Buffer_Read_def Buffer_Write_def drain_body_def delivered_def)
qed

text \<open>
  C10. \<open>Read\<close> with a destination of length zero: with an error \<open>e\<close> recorded it returns
  \<open>(0, e)\<close> and the buffer keeps its bytes; with no error recorded it waits, buffered data or
  not; whenever it returns, it returns no bytes and the recorded error.
\<close>

theorem Read_zero_length:
  "(err r = Some e \<longrightarrow> Read_body r 0 = (Returned [] (Some e), r))
   \<and> (err r = None \<longrightarrow> Read_body r 0 = (Wait, r))
   \<and> (\<forall>res r'. Read_body r 0 = (Returned bs res, r') \<longrightarrow> bs = [] \<and> res = err r \<and> res \<noteq> None)"
  by (auto simp: Read_body_zero split: if_splits)

theorem Read_zero_length_witness:
  "Read_body \<lparr>buf = [104, 105], reader = [], err = Some (Err ''closed'')\<rparr> 0
     = (Returned [] (Some (Err ''closed'')), \<lparr>buf = [104, 105], reader = [], err = Some (Err ''closed'')\<rparr>)
   \<and> Read_body r_running 0 = (Wait, r_running)"
  using Read_zero_length [of "\<lparr>buf = [104, 105], reader = [], err = Some (Err ''closed'')\<rparr>" "Err ''closed''"]
    Read_zero_length [of r_running]
  by (simp add: r_running_def)

section \<open>The claims about writeBroadcaster\<close>

text \<open>
  C3. Whatever the data, the registered sinks and what their writes return, \<open>Write\<close>
  returns \<open>(len(p), nil)\<close>.
\<close>

theorem Write_reports_len_nil: "fst (Write b p w) = (int (length p), None)"
  by (simp add: Write_def split: prod.splits)

theorem Write_reports_len_nil_witness:
  "fst (Write bAB [104, 105] world0) = (2, None)"
  using Write_reports_len_nil [of bAB "[104, 105]" world0] by simp

text \<open>
  C4, as stated, fails for a sink whose write returns a nil error and a count above
  \<open>len(p)\<close>: it does not write fewer than \<open>len(p)\<close> bytes, yet the test
  \<open>n != len(p)\<close> evicts it. The only sink of \<open>bOver\<close> returns \<open>(3, nil)\<close> for two
  bytes and is gone after the call.
\<close>

theorem overcounting_sink_is_evicted:
  "elems (writers bOver) = [(0, 0)]
   \<and> sink_Write 0 [104, 105] world2
       = ((3, None), world2\<lparr>trace := [(0, WriteCall [104, 105])]\<rparr>)
   \<and> \<not> (3 :: int) < int (length [104, 105 :: byte])
   \<and> elems (writers (fst (snd (Write bOver [104, 105] world2)))) = []"
  by (simp add: overcounting_def world2_def bOver_def AddWriter_def PushBack_def list_New_def
      newWriteBroadcaster_def Write_def Remove_def sink_Write_def history_def)

text \<open>
  C4, amended. Take an element of the list, with its sink \<open>s\<close>, and let \<open>(n, er)\<close> be
  what the write of \<open>s\<close> returns when the first loop reaches the element (the world
  \<open>w0\<close> is the one left by the loop over the elements before it). The element is put into
  \<open>failed\<close> exactly when \<open>er\<close> is an error or \<open>n\<close> differs from \<open>len(p)\<close>, and
  it is still in the list after the call exactly when \<open>er\<close> is nil and \<open>n = len(p)\<close>.
\<close>

theorem Write_evicts_exactly_failed:
  assumes "wf_List (writers b)"
    and "i < length (elems (writers b))" and "elems (writers b) ! i = (e, s)"
    and "Write_pass p (take i (elems (writers b))) [] w = (f0, w0)"
    and "sink_Write s p w0 = ((n, er), w1)"
    and "Write b p w = (res, b', w')"
  shows "(e \<in> set (fst (Write_pass p (elems (writers b)) [] w))
            \<longleftrightarrow> (er \<noteq> None \<or> n \<noteq> int (length p)))
       \<and> ((e, s) \<in> set (elems (writers b')) \<longleftrightarrow> (er = None \<and> n = int (length p)))"
proof -
  from assms(1) have d: "distinct (map fst (elems (writers b)))" by (simp add: wf_List_def)
  have marked: "e \<in> set (fst (Write_pass p (elems (writers b)) [] w))
            \<longleftrightarrow> (er \<noteq> None \<or> n \<noteq> int (length p))"
    by (rule entry_failed_iff[OF d assms(2,3,4,5)])
  have kept: "(e, s) \<in> set (elems (writers b')) \<longleftrightarrow> (er = None \<and> n = int (length p))"
    by (rule entry_kept_iff[OF assms])
  from marked kept show ?thesis by simp
qed

theorem Write_evicts_exactly_failed_witness:
  "(0, 0) \<notin> set (elems (writers (fst (snd (Write bAB [104, 105] world0)))))
   \<and> (1, 1) \<in> set (elems (writers (fst (snd (Write bAB [104, 105] world0)))))"
proof -
  let ?p = "[104, 105] :: byte list"
  have wf: "wf_List (writers bAB)" 
    by (simp add: healthy_def broken_def world0_def bAB_def AddWriter_def PushBack_def
        list_New_def newWriteBroadcaster_def Write_def Remove_def sink_Write_def history_def
        wf_List_def)
  have W: "Write bAB ?p world0 = (fst (Write bAB ?p world0), fst (snd (Write bAB ?p world0)),
      snd (snd (Write bAB ?p world0)))" by simp
  have A: "0 < length (elems (writers bAB))" "elems (writers bAB) ! 0 = (0, 0)"
    "Write_pass ?p (take 0 (elems (writers bAB))) [] world0 = ([], world0)"
    "sink_Write 0 ?p world0
       = ((0, Some (Err ''broken pipe'')), world0\<lparr>trace := [(0, WriteCall ?p)]\<rparr>)"
    by (simp_all add: healthy_def broken_def world0_def bAB_def AddWriter_def PushBack_def
        list_New_def newWriteBroadcaster_def Write_def Remove_def sink_Write_def history_def
        wf_List_def)
  have B: "1 < length (elems (writers bAB))" "elems (writers bAB) ! 1 = (1, 1)"
    "Write_pass ?p (take 1 (elems (writers bAB))) [] world0
       = ([0], world0\<lparr>trace := [(0, WriteCall ?p)]\<rparr>)"
    "sink_Write 1 ?p (world0\<lparr>trace := [(0, WriteCall ?p)]\<rparr>)
       = ((2, None), world0\<lparr>trace := [(0, WriteCall ?p), (1, WriteCall ?p)]\<rparr>)"
    by (simp_all add: healthy_def broken_def world0_def bAB_def AddWriter_def PushBack_def
        list_New_def newWriteBroadcaster_def Write_def Remove_def sink_Write_def history_def
        wf_List_def)
  from Write_evicts_exactly_failed [OF wf A W] Write_evicts_exactly_failed [OF wf B W]
  show ?thesis by simp
qed

text \<open>
  C5. Let the write of sink \<open>A\<close> fail and the write of sink \<open>B\<close> succeed during a
  \<open>Write\<close> of \<open>p\<close>. The first loop hands \<open>p\<close> to every element of the list as it was
  before the call, in order (none is removed while the loop runs), so \<open>B\<close> receives all of
  \<open>p\<close>; after the call the element of \<open>A\<close> is gone and that of \<open>B\<close> is still there;
  every later \<open>Write\<close> calls only sinks that were still registered after this one, and never
  \<open>A\<close> when each sink is registered once.
\<close>

theorem eviction_is_isolated_and_final:
  assumes wf: "wf_List (writers b)"
    and iA: "i < length (elems (writers b))" and atA: "elems (writers b) ! i = (eA, A)"
    and pA: "Write_pass p (take i (elems (writers b))) [] w = (fA, wA)"
    and sA: "sink_Write A p wA = ((nA, erA), wA')"
    and fails: "erA \<noteq> None \<or> nA \<noteq> int (length p)"
    and jB: "j < length (elems (writers b))" and atB: "elems (writers b) ! j = (eB, B)"
    and pB: "Write_pass p (take j (elems (writers b))) [] w = (fB, wB)"
    and sB: "sink_Write B p wB = ((nB, erB), wB')"
    and succeeds: "erB = None \<and> nB = int (length p)"
    and W: "Write b p w = (res, b1, w1)"
    and L: "Writes b1 ps w1 = (b2, w2)"
  shows "trace wA = trace w @ map (\<lambda>x. (snd x, WriteCall p)) (take i (elems (writers b)))
       \<and> trace w1 = trace w @ map (\<lambda>x. (snd x, WriteCall p)) (elems (writers b))
       \<and> (eA, A) \<notin> set (elems (writers b1)) \<and> (eB, B) \<in> set (elems (writers b1))
       \<and> set (elems (writers b2)) \<subseteq> set (elems (writers b1))
       \<and> (\<exists>calls. trace w2 = trace w1 @ calls
             \<and> fst ` set calls \<subseteq> snd ` set (elems (writers b1))
             \<and> (distinct (map snd (elems (writers b))) \<longrightarrow> A \<notin> fst ` set calls))"
proof -
  have t0: "trace wA = trace w @ map (\<lambda>x. (snd x, WriteCall p)) (take i (elems (writers b)))"
    using Write_pass_world[OF pA] by simp
  have t1: "trace w1 = trace w @ map (\<lambda>x. (snd x, WriteCall p)) (elems (writers b))"
    by (rule Write_result(4)[OF W])
  have outA: "(eA, A) \<notin> set (elems (writers b1))"
    using entry_kept_iff[OF wf iA atA pA sA W] fails by auto
  have inB: "(eB, B) \<in> set (elems (writers b1))"
    using entry_kept_iff[OF wf jB atB pB sB W] succeeds by auto
  from Writes_later[OF L] obtain calls where c:
    "set (elems (writers b2)) \<subseteq> set (elems (writers b1))"
    "trace w2 = trace w1 @ calls" "fst ` set calls \<subseteq> snd ` set (elems (writers b1))"
    by auto
  have "A \<notin> fst ` set calls" if d: "distinct (map snd (elems (writers b)))"
  proof
    assume "A \<in> fst ` set calls"
    with c(3) obtain x where x: "x \<in> set (elems (writers b1))" "snd x = A" by auto
    from x(1) Write_result(2)[OF W] have xin: "x \<in> set (elems (writers b))" by auto
    have ain: "(eA, A) \<in> set (elems (writers b))" using iA atA by (metis nth_mem)
    from d xin ain x(2) have "x = (eA, A)"
      by (metis distinct_map inj_onD snd_conv)
    with x(1) outA show False by simp
  qed
  with t0 t1 outA inB c show ?thesis by blast
qed

theorem eviction_is_isolated_and_final_witness:
  "trace (snd (snd (Write bAB [104, 105] world0)))
     = [(0, WriteCall [104, 105]), (1, WriteCall [104, 105])]
   \<and> elems (writers (fst (snd (Write bAB [104, 105] world0)))) = [(1, 1)]
   \<and> (0, 0) \<notin> set (elems (writers (fst (snd (Write bAB [104, 105] world0)))))
   \<and> (1, 1) \<in> set (elems (writers (fst (snd (Write bAB [104, 105] world0)))))
   \<and> trace (snd (Writes bAB [[104, 105], [33]] world0))
     = [(0, WriteCall [104, 105]), (1, WriteCall [104, 105]), (1, WriteCall [33])]"
proof -
  let ?p = "[104, 105] :: byte list"
  let ?W = "Write bAB ?p world0"
  let ?L = "Writes (fst (snd ?W)) [[33]] (snd (snd ?W))"
  have wf: "wf_List (writers bAB)" 
    by (simp add: healthy_def broken_def world0_def bAB_def AddWriter_def PushBack_def
        list_New_def newWriteBroadcaster_def Write_def Remove_def sink_Write_def history_def
        wf_List_def)
  have W: "?W = (fst ?W, fst (snd ?W), snd (snd ?W))" by simp
  have L: "?L = (fst ?L, snd ?L)" by simp
  have A: "0 < length (elems (writers bAB))" "elems (writers bAB) ! 0 = (0, 0)"
    "Write_pass ?p (take 0 (elems (writers bAB))) [] world0 = ([], world0)"
    "sink_Write 0 ?p world0
       = ((0, Some (Err ''broken pipe'')), world0\<lparr>trace := [(0, WriteCall ?p)]\<rparr>)"
    "Some (Err ''broken pipe'') \<noteq> None \<or> (0::int) \<noteq> int (length ?p)"
    by (simp_all add: healthy_def broken_def world0_def bAB_def AddWriter_def PushBack_def
        list_New_def newWriteBroadcaster_def Write_def Remove_def sink_Write_def history_def
        wf_List_def)
  have B: "1 < length (elems (writers bAB))" "elems (writers bAB) ! 1 = (1, 1)"
    "Write_pass ?p (take 1 (elems (writers bAB))) [] world0
       = ([0], world0\<lparr>trace := [(0, WriteCall ?p)]\<rparr>)"
    "sink_Write 1 ?p (world0\<lparr>trace := [(0, WriteCall ?p)]\<rparr>)
       = ((2, None), world0\<lparr>trace := [(0, WriteCall ?p), (1, WriteCall ?p)]\<rparr>)"
    "None = (None :: error option) \<and> (2::int) = int (length ?p)"
    by (simp_all add: healthy_def broken_def world0_def bAB_def AddWriter_def PushBack_def
        list_New_def newWriteBroadcaster_def Write_def Remove_def sink_Write_def history_def
        wf_List_def)
  have ev: "trace (snd (snd ?W)) = [(0, WriteCall ?p), (1, WriteCall ?p)]"
    "elems (writers (fst (snd ?W))) = [(1, 1)]"
    "trace (snd (Writes bAB [?p, [33]] world0))
       = [(0, WriteCall ?p), (1, WriteCall ?p), (1, WriteCall [33])]"
    by (simp_all add: healthy_def broken_def world0_def bAB_def AddWriter_def PushBack_def
        list_New_def newWriteBroadcaster_def Write_def Remove_def sink_Write_def history_def
        wf_List_def)
  from eviction_is_isolated_and_final [OF wf A B W L] ev
  show ?thesis by simp
qed

text \<open>
  C7. \<open>Close\<close> returns nil, whatever the sinks' own \<open>Close\<close> return, and calls
  \<open>Close\<close> on the sink of every element, in the order of the list: a sink is closed as many
  times as it is registered, once when it is registered once.
\<close>

theorem Close_closes_every_sink_once:
  "fst (Close b w) = None
   \<and> trace (snd (snd (Close b w))) = trace w @ map (\<lambda>x. (snd x, CloseCall)) (elems (writers b))
   \<and> length (filter (\<lambda>c. c = (s, CloseCall)) (map (\<lambda>x. (snd x, CloseCall)) (elems (writers b))))
       = length (filter (\<lambda>x. snd x = s) (elems (writers b)))"
proof -
  have "length (filter (\<lambda>c. c = (s, CloseCall)) (map (\<lambda>x. (snd x, CloseCall)) es))
       = length (filter (\<lambda>x. snd x = s) es)" for es :: "(elem \<times> ref) list"
    by (induction es) auto
  then show ?thesis by (simp add: Close_def Close_pass_world)
qed

theorem Close_closes_every_sink_once_witness:
  "fst (Close bABC world1) = None
   \<and> trace (snd (snd (Close bABC world1))) = [(0, CloseCall), (1, CloseCall), (2, CloseCall)]"
  using Close_closes_every_sink_once [of bABC world1 0]
  by (simp add: bABC_def world1_def AddWriter_def PushBack_def list_New_def
      newWriteBroadcaster_def)

text \<open>
  C9. \<open>Close\<close> leaves the broadcaster as it was, and a \<open>Write\<close> after it hands the data
  to every sink that was registered before the \<open>Close\<close>.
\<close>

theorem Close_leaves_sinks_registered:
  assumes "Close b w = (res, b', w')"
  shows "b' = b
       \<and> trace (snd (snd (Write b' p w')))
           = trace w' @ map (\<lambda>x. (snd x, WriteCall p)) (elems (writers b))"
proof -
  from assms have "b' = b" by (simp add: Close_def)
  moreover have "trace (snd (snd (Write b p w')))
      = trace w' @ map (\<lambda>x. (snd x, WriteCall p)) (elems (writers b))"
    using Write_result(4)[of b p w' "fst (Write b p w')" "fst (snd (Write b p w'))"
        "snd (snd (Write b p w'))"] by simp
  ultimately show ?thesis by simp
qed

theorem Close_leaves_sinks_registered_witness:
  "fst (snd (Close bABC world1)) = bABC
   \<and> trace (snd (snd (Write bABC [104] (snd (snd (Close bABC world1))))))
       = [(0, CloseCall), (1, CloseCall), (2, CloseCall),
          (0, WriteCall [104]), (1, WriteCall [104]), (2, WriteCall [104])]
   \<and> elems (writers (fst (snd (Write bABC [104] (snd (snd (Close bABC world1))))))) = []"
proof -
  let ?C = "Close bABC world1"
  have C: "?C = (fst ?C, fst (snd ?C), snd (snd ?C))" by simp
  have ev: "trace (snd (snd ?C)) = [(0, CloseCall), (1, CloseCall), (2, CloseCall)]"
    "elems (writers bABC) = [(0, 0), (1, 1), (2, 2)]"
    "fst (snd ?C) = bABC"
    "elems (writers (fst (snd (Write bABC [104] (snd (snd ?C)))))) = []"
    by (simp_all add: broken_def file_like_def world1_def bABC_def Close_def sink_Close_def
        AddWriter_def PushBack_def list_New_def newWriteBroadcaster_def Write_def Remove_def
        sink_Write_def history_def wf_List_def)
  from Close_leaves_sinks_registered [OF C, of "[104]"] ev show ?thesis by simp
qed

end
